theory Spec2Isabelle
  imports Main "HOL-Library.Word"
begin

section \<open>JavaScript strings\<close>

text \<open>
  A JavaScript string is a sequence of UTF-16 code units. The regular expressions of the
  screen carry no \<open>u\<close> flag, so every character class tests one code unit.
  \<open>js\<close> reads an ASCII literal as such a sequence.
\<close>

type_synonym cu = "16 word"
type_synonym jsstring = "cu list"

definition js :: "string \<Rightarrow> jsstring" where
  "js s = map of_char s"

text \<open>The code units the source names: \<open>*\<close>, \<open>.\<close>, \<open>:\<close>, the line feed of
  \<open>split('\n')\<close>, and the two units of the replacement string (U+2022 BULLET, space).\<close>

definition star :: cu where "star = 0x2A"
definition dot :: cu where "dot = 0x2E"
definition colon :: cu where "colon = 0x3A"
definition newline :: cu where "newline = 0x0A"
definition space :: cu where "space = 0x20"
definition bullet :: cu where "bullet = 0x2022"

text \<open>\<open>\d\<close> is \<open>[0-9]\<close>. \<open>\s\<close> and \<open>String.prototype.trim\<close> share one set: WhiteSpace
  (TAB, VT, FF, the space separators, U+FEFF) and LineTerminator (LF, CR, U+2028, U+2029).\<close>

definition isDigit :: "cu \<Rightarrow> bool" where
  "isDigit c \<longleftrightarrow> 0x30 \<le> c \<and> c \<le> 0x39"

definition isSpace :: "cu \<Rightarrow> bool" where
  "isSpace c \<longleftrightarrow>
     c = 0x09 \<or> c = 0x0A \<or> c = 0x0B \<or> c = 0x0C \<or> c = 0x0D \<or> c = 0x20 \<or> c = 0xA0 \<or>
     c = 0x1680 \<or> (0x2000 \<le> c \<and> c \<le> 0x200A) \<or> c = 0x2028 \<or> c = 0x2029 \<or>
     c = 0x202F \<or> c = 0x205F \<or> c = 0x3000 \<or> c = 0xFEFF"

text \<open>\<open>s.trim()\<close>: white space removed at both ends.\<close>

definition trimStart :: "jsstring \<Rightarrow> jsstring" where
  "trimStart s = dropWhile isSpace s"

definition trim :: "jsstring \<Rightarrow> jsstring" where
  "trim s = rev (dropWhile isSpace (rev (dropWhile isSpace s)))"

text \<open>Truthiness of a string (\<open>filter(Boolean)\<close>, \<open>&&\<close>, \<open>||\<close>): the empty string is falsy.\<close>

definition truthy :: "jsstring \<Rightarrow> bool" where
  "truthy s \<longleftrightarrow> s \<noteq> []"

text \<open>\<open>s.startsWith(p)\<close>.\<close>

fun startsWith :: "jsstring \<Rightarrow> jsstring \<Rightarrow> bool" where
  "startsWith s [] = True"
| "startsWith [] (p # ps) = False"
| "startsWith (c # cs) (p # ps) = (c = p \<and> startsWith cs ps)"

text \<open>\<open>s.split('\n')\<close>, a one-unit string separator: the pieces between the separators,
  one piece more than there are separators (\<open>''.split('\n')\<close> is \<open>['']\<close>).\<close>

fun splitOn :: "cu \<Rightarrow> jsstring \<Rightarrow> jsstring list" where
  "splitOn sep [] = [[]]"
| "splitOn sep (c # cs) =
     (if c = sep then [] # splitOn sep cs
      else (case splitOn sep cs of p # ps \<Rightarrow> (c # p) # ps | [] \<Rightarrow> [[c]]))"

section \<open>Regular expressions\<close>

text \<open>
  The three patterns of the screen use literals, the classes \<open>\d\<close>, \<open>\s\<close> and \<open>[^:]\<close>,
  the greedy quantifiers \<open>*\<close> and \<open>+\<close> on a single class, concatenation, one capture
  group and the assertion \<open>^\<close> (no \<open>m\<close> flag: start of input only). The matcher is the
  backtracking matcher of the language definition, in continuation-passing style: a
  pattern is run on a state with the continuation that matches the rest of the pattern,
  and a greedy quantifier tries the longer repetition first.
\<close>

datatype atom = Lit cu | Digit | Space | NotLit cu

datatype rx = One atom | Star atom | Plus atom | Seq rx rx | Group rx | Bol

fun atom_ok :: "atom \<Rightarrow> cu \<Rightarrow> bool" where
  "atom_ok (Lit x) c = (c = x)"
| "atom_ok Digit c = isDigit c"
| "atom_ok Space c = isSpace c"
| "atom_ok (NotLit x) c = (c \<noteq> x)"

text \<open>A matcher state: the index reached, the input from there on, and capture 1.\<close>

type_synonym mstate = "nat \<times> jsstring \<times> jsstring option"

fun star_m :: "atom \<Rightarrow> nat \<Rightarrow> jsstring \<Rightarrow> jsstring option \<Rightarrow>
    (mstate \<Rightarrow> mstate option) \<Rightarrow> mstate option" where
  "star_m a i [] cp k = k (i, [], cp)"
| "star_m a i (c # cs) cp k =
     (if atom_ok a c
      then (case star_m a (Suc i) cs cp k of
              Some r \<Rightarrow> Some r
            | None \<Rightarrow> k (i, c # cs, cp))
      else k (i, c # cs, cp))"

fun one_m :: "atom \<Rightarrow> mstate \<Rightarrow> (mstate \<Rightarrow> mstate option) \<Rightarrow> mstate option" where
  "one_m a (i, [], cp) k = None"
| "one_m a (i, c # cs, cp) k = (if atom_ok a c then k (Suc i, cs, cp) else None)"

primrec run :: "rx \<Rightarrow> mstate \<Rightarrow> (mstate \<Rightarrow> mstate option) \<Rightarrow> mstate option" where
  "run (One a) = (\<lambda>st k. one_m a st k)"
| "run (Star a) = (\<lambda>st k. case st of (i, s, cp) \<Rightarrow> star_m a i s cp k)"
| "run (Plus a) = (\<lambda>st k. one_m a st (\<lambda>st'. case st' of (i, s, cp) \<Rightarrow> star_m a i s cp k))"
| "run (Seq r1 r2) = (\<lambda>st k. run r1 st (\<lambda>st'. run r2 st' k))"
| "run (Group r) =
     (\<lambda>st k. case st of (i, s, cp) \<Rightarrow>
        run r st (\<lambda>st'. case st' of (j, s', cp') \<Rightarrow> k (j, s', Some (take (j - i) s))))"
| "run Bol = (\<lambda>st k. case st of (i, s, cp) \<Rightarrow> if i = 0 then k st else None)"

text \<open>One match attempt at index \<open>i\<close>, where the input from \<open>i\<close> on is \<open>s\<close>: the end
  index, the input left and the capture, or \<open>None\<close>.\<close>

definition exec_at :: "rx \<Rightarrow> nat \<Rightarrow> jsstring \<Rightarrow> mstate option" where
  "exec_at re i s = run re (i, s, None) Some"

text \<open>\<open>/\*\*(\d+\.\s*[^:]+:)\*\*/\<close>, \<open>/^\d+\.\s*/\<close> and \<open>/^\*\s*/\<close>.\<close>

definition heading_rx :: rx where
  "heading_rx =
     Seq (One (Lit star)) (Seq (One (Lit star))
       (Seq (Group (Seq (Plus Digit) (Seq (One (Lit dot))
                 (Seq (Star Space) (Seq (Plus (NotLit colon)) (One (Lit colon)))))))
         (Seq (One (Lit star)) (One (Lit star)))))"

definition numeral_rx :: rx where
  "numeral_rx = Seq Bol (Seq (Plus Digit) (Seq (One (Lit dot)) (Star Space)))"

definition bullet_rx :: rx where
  "bullet_rx = Seq Bol (Seq (One (Lit star)) (Star Space))"


text \<open>A successful match attempt consumes a prefix of the input: the end index and the
  input left are the start index and the input, advanced by the same count.\<close>

definition adv :: "mstate \<Rightarrow> mstate \<Rightarrow> bool" where
  "adv st st' \<longleftrightarrow>
     (case st of (i, s, cp) \<Rightarrow> case st' of (j, s', cp') \<Rightarrow>
        \<exists>n\<le>length s. j = i + n \<and> s' = drop n s)"

lemma adv_refl: "adv st st"
  by (auto simp: adv_def split: prod.splits)

lemma advI: "n \<le> length s \<Longrightarrow> adv (i, s, cp) (i + n, drop n s, cp')"
  by (auto simp: adv_def)

lemma advE:
  assumes "adv (i, s, cp) (j, s', cp')"
  obtains n where "n \<le> length s" "j = i + n" "s' = drop n s"
  using assms by (auto simp: adv_def)

lemma adv_trans:
  assumes "adv a b" "adv b c"
  shows "adv a c"
proof -
  obtain i s cp where a: "a = (i, s, cp)" by (cases a)
  obtain j s' cp' where b: "b = (j, s', cp')" by (cases b)
  obtain l s'' cp'' where c: "c = (l, s'', cp'')" by (cases c)
  from assms(1) a b obtain n where n: "n \<le> length s" "j = i + n" "s' = drop n s"
    by (auto elim: advE)
  from assms(2) b c obtain m where m: "m \<le> length s'" "l = j + m" "s'' = drop m s'"
    by (auto elim: advE)
  have "n + m \<le> length s" "l = i + (n + m)" "s'' = drop (n + m) s"
    using n m by (simp_all add: add.commute)
  then show ?thesis
    unfolding a c using advI [of "n + m" s i cp cp''] by simp
qed

lemma adv_step:
  assumes "adv (Suc i, cs, cp) st'"
  shows "adv (i, c # cs, cp') st'"
proof -
  obtain j s' cq where st': "st' = (j, s', cq)" by (cases st')
  from assms st' obtain n where n: "n \<le> length cs" "j = Suc i + n" "s' = drop n cs"
    by (auto elim: advE)
  then show ?thesis
    unfolding st' using advI [of "Suc n" "c # cs" i cp' cq] by simp
qed

lemma adv_one: "adv (i, c # cs, cp) (Suc i, cs, cp')"
  using advI [of 1 "c # cs" i cp cp'] by simp

lemma adv_cap: "adv (i, s, cp) (j, s', cp') \<Longrightarrow> adv (i, s, cq) (j, s', cq')"
  by (simp add: adv_def)

lemma star_m_adv:
  "star_m a i s cp k = Some r \<Longrightarrow> \<exists>st'. adv (i, s, cp) st' \<and> k st' = Some r"
proof (induction s arbitrary: i)
  case Nil
  then show ?case by (auto intro: adv_refl)
next
  case (Cons c cs)
  show ?case
  proof (cases "atom_ok a c \<and> star_m a (Suc i) cs cp k \<noteq> None")
    case True
    with Cons.prems have "star_m a (Suc i) cs cp k = Some r" by auto
    from Cons.IH [OF this] show ?thesis by (blast intro: adv_step)
  next
    case False
    with Cons.prems have "k (i, c # cs, cp) = Some r"
      by (cases "star_m a (Suc i) cs cp k") (auto split: if_splits)
    then show ?thesis by (blast intro: adv_refl)
  qed
qed

lemma one_m_adv:
  assumes "one_m a st k = Some r"
  shows "\<exists>st'. adv st st' \<and> k st' = Some r"
proof -
  obtain i s cp where st: "st = (i, s, cp)" by (cases st)
  show ?thesis
  proof (cases s)
    case Nil
    with assms st show ?thesis by simp
  next
    case (Cons c cs)
    with assms st have "k (Suc i, cs, cp) = Some r" by (simp split: if_splits)
    then have "adv st (Suc i, cs, cp) \<and> k (Suc i, cs, cp) = Some r"
      unfolding st Cons by (simp add: adv_one)
    then show ?thesis by (rule exI)
  qed
qed

lemma run_adv:
  "run re st k = Some r \<Longrightarrow> \<exists>st'. adv st st' \<and> k st' = Some r"
proof (induction re arbitrary: st k r)
  case (One a)
  then have "one_m a st k = Some r" by simp
  then show ?case by (rule one_m_adv)
next
  case (Star a)
  obtain i s cp where st: "st = (i, s, cp)" by (cases st)
  with Star have "star_m a i s cp k = Some r" by simp
  then show ?case unfolding st by (rule star_m_adv)
next
  case (Plus a)
  then have "one_m a st (\<lambda>st'. case st' of (i, s, cp) \<Rightarrow> star_m a i s cp k) = Some r"
    by simp
  then obtain st1 where a1: "adv st st1"
    and s1: "(case st1 of (i, s, cp) \<Rightarrow> star_m a i s cp k) = Some r"
    using one_m_adv by blast
  obtain i s cp where st1: "st1 = (i, s, cp)" by (cases st1)
  with s1 have "star_m a i s cp k = Some r" by simp
  then obtain st2 where "adv (i, s, cp) st2" "k st2 = Some r"
    using star_m_adv by blast
  with a1 st1 show ?case by (blast intro: adv_trans)
next
  case (Seq r1 r2)
  then have "run r1 st (\<lambda>st'. run r2 st' k) = Some r" by simp
  from Seq.IH(1) [OF this] obtain st1 where a1: "adv st st1" and "run r2 st1 k = Some r"
    by blast
  from Seq.IH(2) [OF this(2)] a1 show ?case by (blast intro: adv_trans)
next
  case (Group re)
  obtain i s cp where st: "st = (i, s, cp)" by (cases st)
  let ?k = "\<lambda>st'. case st' of (j, s', cp') \<Rightarrow> k (j, s', Some (take (j - i) s))"
  from Group.prems st have "run re st ?k = Some r" by simp
  from Group.IH [OF this] obtain st1 where a1: "adv st st1" and k1: "?k st1 = Some r"
    by blast
  obtain j s' cp' where st1: "st1 = (j, s', cp')" by (cases st1)
  from a1 st st1 have "adv st (j, s', Some (take (j - i) s))" by (auto intro: adv_cap)
  with k1 st1 show ?case by auto
next
  case Bol
  then show ?case by (cases st) (auto split: if_splits intro: adv_refl)
qed

lemma exec_at_adv:
  "exec_at re i s = Some (e, s', cp) \<Longrightarrow> \<exists>n\<le>length s. e = i + n \<and> s' = drop n s"
  using run_adv [of re "(i, s, None)" Some "(e, s', cp)"]
  by (auto simp: exec_at_def adv_def)

section \<open>Splitting and replacing with a pattern\<close>

text \<open>
  \<open>s.split(re)\<close> for a pattern with one capture group. \<open>q\<close> is the index tried, \<open>pend\<close>
  the text between the end \<open>p\<close> of the last match and \<open>q\<close>. No match at \<open>q\<close>, or a match
  ending at \<open>p\<close>: go on at \<open>q + 1\<close>. Otherwise the pending text and the capture are
  appended and the scan goes on at the end of the match. An element of the result is a
  string or \<open>undefined\<close> (a group that took no part), here \<open>None\<close>.
\<close>

function split_loop :: "rx \<Rightarrow> nat \<Rightarrow> jsstring \<Rightarrow> jsstring \<Rightarrow> jsstring option list" where
  "split_loop re q pend [] = [Some pend]"
| "split_loop re q pend (c # cs) =
     (case exec_at re q (c # cs) of
        None \<Rightarrow> split_loop re (Suc q) (pend @ [c]) cs
      | Some (e, s', cp) \<Rightarrow>
          if e = q - length pend then split_loop re (Suc q) (pend @ [c]) cs
          else Some pend # cp # split_loop re e [] s')"
  by pat_completeness auto
termination
proof (relation "measure (\<lambda>(re, q, pend, s). 2 * length s + (if pend = [] then 0 else 1))",
    goal_cases)
  case 1
  show ?case by simp
next
  case (2 re q pend c cs)
  show ?case by simp
next
  case (3 re q pend c cs x2 e y s' cp)
  show ?case by simp
next
  case (4 re q pend c cs x2 e y s' cp)
  then have ex: "exec_at re q (c # cs) = Some (e, s', cp)" and ne: "e \<noteq> q - length pend"
    by simp_all
  from exec_at_adv [OF ex] obtain n where n: "n \<le> length (c # cs)" "e = q + n" "s' = drop n (c # cs)"
    by blast
  show ?case
  proof (cases n)
    case 0
    with n ne have "pend \<noteq> []" by auto
    with 0 n show ?thesis by simp
  next
    case (Suc m)
    with n show ?thesis by simp
  qed
qed

definition split :: "rx \<Rightarrow> jsstring \<Rightarrow> jsstring option list" where
  "split re s =
     (if s = [] then (case exec_at re 0 [] of None \<Rightarrow> [Some []] | Some z \<Rightarrow> [])
      else split_loop re 0 [] s)"

text \<open>\<open>xs.filter(Boolean)\<close>: \<open>undefined\<close> and the empty string go.\<close>

fun filterBoolean :: "jsstring option list \<Rightarrow> jsstring list" where
  "filterBoolean [] = []"
| "filterBoolean (None # xs) = filterBoolean xs"
| "filterBoolean (Some s # xs) = (if truthy s then s # filterBoolean xs else filterBoolean xs)"

text \<open>
  \<open>s.replace(re, r)\<close> for a pattern without \<open>g\<close> and a replacement without \<open>$\<close>: the first
  index, from 0 to the length inclusive, where the pattern matches; the match is replaced,
  and a string with no match is returned as it is.
\<close>

fun search :: "rx \<Rightarrow> nat \<Rightarrow> jsstring \<Rightarrow> (nat \<times> mstate) option" where
  "search re q [] = (case exec_at re q [] of Some r \<Rightarrow> Some (q, r) | None \<Rightarrow> None)"
| "search re q (c # cs) =
     (case exec_at re q (c # cs) of Some r \<Rightarrow> Some (q, r) | None \<Rightarrow> search re (Suc q) cs)"

definition replace :: "rx \<Rightarrow> jsstring \<Rightarrow> jsstring \<Rightarrow> jsstring" where
  "replace re r s =
     (case search re 0 s of
        None \<Rightarrow> s
      | Some (q, e, s', cp) \<Rightarrow> take q s @ r @ s')"

section \<open>The response parser of the camera screen\<close>

text \<open>
  An array read \<open>xs[i]\<close> never throws: out of range it is \<open>undefined\<close> (\<open>None\<close>). A
  method call on \<open>undefined\<close> throws a TypeError, the one way the parser could fail.
\<close>

datatype error = TypeError

definition nth_js :: "'a list \<Rightarrow> nat \<Rightarrow> 'a option" where
  "nth_js xs i = (if i < length xs then Some (xs ! i) else None)"

text \<open>\<open>v || ''\<close> and the truthiness of a string or \<open>undefined\<close>.\<close>

definition or_empty :: "jsstring option \<Rightarrow> jsstring" where
  "or_empty v = (case v of None \<Rightarrow> [] | Some s \<Rightarrow> if truthy s then s else [])"

definition truthy_val :: "jsstring option \<Rightarrow> bool" where
  "truthy_val v = (case v of None \<Rightarrow> False | Some s \<Rightarrow> truthy s)"

record fsection =
  heading :: jsstring
  content :: jsstring

text \<open>
  \<open>formatAnalysisText\<close>: the text is split at the heading pattern, falsy pieces are
  dropped, and the loop reads the pieces two by two, \<open>sections[i]\<close> as the heading and
  \<open>sections[i + 1] || ''\<close> as the content; a pair is pushed when both are truthy.
\<close>

function fmt_loop :: "jsstring list \<Rightarrow> nat \<Rightarrow> fsection list \<Rightarrow> error + fsection list" where
  "fmt_loop sections i formattedSections =
     (if i < length sections then
        (let h = nth_js sections i;
             c = or_empty (nth_js sections (i + 1))
         in if truthy_val h \<and> truthy c then
              (case h of
                 None \<Rightarrow> Inl TypeError
               | Some hs \<Rightarrow>
                   fmt_loop sections (i + 2)
                     (formattedSections @
                        [\<lparr>heading = replace numeral_rx [] hs, content = trim c\<rparr>]))
            else fmt_loop sections (i + 2) formattedSections)
      else Inr formattedSections)"
  by pat_completeness auto
termination
  by (relation "measure (\<lambda>(sections, i, acc). length sections - i)") auto

definition formatAnalysisText :: "jsstring \<Rightarrow> error + fsection list" where
  "formatAnalysisText text = fmt_loop (filterBoolean (split heading_rx text)) 0 []"

text \<open>
  \<open>renderFormattedContent\<close>: one \<open>Text\<close> element per line that is not blank, in the
  \<open>subheading\<close> style (the spec's SUBPOINT) when the trimmed line starts with \<open>*\<close>, in the
  \<open>contentText\<close> style (PLAIN) otherwise.
\<close>

datatype text_style = Subheading | ContentText

record text_el =
  style :: text_style
  children :: jsstring

definition render_line :: "jsstring \<Rightarrow> text_el" where
  "render_line line =
     (let isSubheading = startsWith (trim line) [star]
      in if isSubheading
         then \<lparr>style = Subheading, children = replace bullet_rx [bullet, space] line\<rparr>
         else \<lparr>style = ContentText, children = line\<rparr>)"

definition renderFormattedContent :: "jsstring \<Rightarrow> text_el list" where
  "renderFormattedContent c =
     map render_line (filter (\<lambda>line. truthy (trim line)) (splitOn newline c))"

text \<open>
  The result modal maps every formatted section to its heading and its rendered content:
  the parser of the spec, a sequence of sections with a heading and a body of lines.
  (For an empty analysis the modal renders nothing without calling \<open>formatAnalysisText\<close>.)
\<close>

record section_view =
  sectionHeading :: jsstring
  sectionContent :: "text_el list"

definition render_section :: "fsection \<Rightarrow> section_view" where
  "render_section sec =
     \<lparr>sectionHeading = heading sec, sectionContent = renderFormattedContent (content sec)\<rparr>"

definition parse :: "jsstring \<Rightarrow> error + section_view list" where
  "parse text =
     (case formatAnalysisText text of
        Inl e \<Rightarrow> Inl e
      | Inr secs \<Rightarrow> Inr (map render_section secs))"

section \<open>The camera screen\<close>

text \<open>
  The screen's handlers only write React state and call the camera, the picker, the
  model and \<open>Alert\<close>; none of them reads the state. The part of a handler after its
  \<open>await\<close> is therefore a function from what the awaited call settled to and the state at
  that moment to the next state. The effects on the outside (alerts, console errors,
  calls of \<open>generateContent\<close>) are appended to a log. Both sources of the screen have the
  same handlers; the variant without the result modal never writes \<open>showModal\<close>.
\<close>

record photo =
  uri :: jsstring
  base64 :: "jsstring option"

text \<open>A promise that has settled.\<close>

datatype 'a settled = Resolved 'a | Rejected

record pick_result =
  canceled :: bool
  assets :: "photo list option"

datatype effect =
    Alert string string
  | ConsoleError string
  | GenerateContent "jsstring option"

datatype camera_type = Back | Front

text \<open>\<open>process.env.EXPO_PUBLIC_GEMINI_API_KEY\<close> and whether \<open>cameraRef.current\<close> is set.\<close>

record env =
  apiKey :: "string option"
  cameraRef :: bool

record screen =
  facing :: camera_type
  capturedImage :: "jsstring option"
  analysis :: jsstring
  loading :: bool
  showModal :: bool
  effects :: "effect list"

definition initial :: screen where
  "initial = \<lparr>facing = Back, capturedImage = None, analysis = [], loading = False,
     showModal = False, effects = []\<rparr>"

definition alert :: "string \<Rightarrow> string \<Rightarrow> screen \<Rightarrow> screen" where
  "alert title msg s = s\<lparr>effects := effects s @ [Alert title msg]\<rparr>"

text \<open>The number of requests sent to the model so far.\<close>

fun is_request :: "effect \<Rightarrow> bool" where
  "is_request (GenerateContent b) = True"
| "is_request x = False"

definition requests :: "screen \<Rightarrow> nat" where
  "requests s = length (filter is_request (effects s))"

text \<open>\<open>!process.env.EXPO_PUBLIC_GEMINI_API_KEY\<close>: unset or empty.\<close>

definition key_missing :: "env \<Rightarrow> bool" where
  "key_missing e = (case apiKey e of None \<Rightarrow> True | Some k \<Rightarrow> k = [])"

text \<open>
  \<open>analyzeRoom\<close> up to its \<open>await\<close> of \<open>generateContent\<close>, and \<open>analyzeRoom_settled\<close>
  from there on: the rest of the \<open>try\<close> block when the request resolved with a text, the
  \<open>catch\<close> block when anything in the \<open>try\<close> block threw, and \<open>finally\<close> in both cases.
\<close>

definition analyzeRoom :: "env \<Rightarrow> jsstring option \<Rightarrow> screen \<Rightarrow> screen" where
  "analyzeRoom e base64Image s =
     (if key_missing e
      then alert ''Error'' ''Please add your Gemini API key to environment variables'' s
      else s\<lparr>loading := True, effects := effects s @ [GenerateContent base64Image]\<rparr>)"

definition analyzeRoom_settled :: "jsstring settled \<Rightarrow> screen \<Rightarrow> screen" where
  "analyzeRoom_settled r s =
     (case r of
        Resolved txt \<Rightarrow> s\<lparr>analysis := txt, showModal := True, loading := False\<rparr>
      | Rejected \<Rightarrow>
          (alert ''Error'' ''Failed to analyze room. Please try again.''
             (s\<lparr>effects := effects s @ [ConsoleError ''Error analyzing image:'']\<rparr>))
          \<lparr>loading := False\<rparr>)"

text \<open>
  \<open>takePicture\<close>, given what \<open>takePictureAsync\<close> settled to (a photo or \<open>undefined\<close>);
  without \<open>cameraRef.current\<close> the camera is not called and nothing happens.
\<close>

definition takePicture :: "env \<Rightarrow> photo option settled \<Rightarrow> screen \<Rightarrow> screen" where
  "takePicture e r s =
     (if cameraRef e then
        (case r of
           Rejected \<Rightarrow> alert ''Error'' ''Failed to take picture'' s
         | Resolved None \<Rightarrow> s
         | Resolved (Some p) \<Rightarrow> analyzeRoom e (base64 p) (s\<lparr>capturedImage := Some (uri p)\<rparr>))
      else s)"

text \<open>
  \<open>pickImage\<close>, given what \<open>launchImageLibraryAsync\<close> settled to. \<open>result.assets[0]\<close> is
  read only when the pick was not cancelled; on \<open>assets = null\<close> the read throws inside
  the \<open>try\<close> block.
\<close>

definition pickImage :: "env \<Rightarrow> pick_result settled \<Rightarrow> screen \<Rightarrow> screen" where
  "pickImage e r s =
     (case r of
        Rejected \<Rightarrow> alert ''Error'' ''Failed to pick image'' s
      | Resolved result \<Rightarrow>
          if canceled result then s
          else (case assets result of
                  None \<Rightarrow> alert ''Error'' ''Failed to pick image'' s
                | Some as \<Rightarrow>
                    (case nth_js as 0 of
                       None \<Rightarrow> s
                     | Some p \<Rightarrow>
                         analyzeRoom e (base64 p) (s\<lparr>capturedImage := Some (uri p)\<rparr>))))"

definition toggleCameraFacing :: "screen \<Rightarrow> screen" where
  "toggleCameraFacing s = s\<lparr>facing := (if facing s = Back then Front else Back)\<rparr>"

definition resetAnalysis :: "screen \<Rightarrow> screen" where
  "resetAnalysis s = s\<lparr>capturedImage := None, analysis := [], showModal := False\<rparr>"

text \<open>
  What is rendered once the camera permission is granted. With \<open>capturedImage && !showModal\<close>
  the screen is the analysis view, whose only button is "Take Another Photo". Otherwise it
  is the camera view with the capture, flip and gallery buttons, covered by the result
  modal (close button, "Take Another Photo") while \<open>showModal\<close> holds.
\<close>

definition analysis_view :: "screen \<Rightarrow> bool" where
  "analysis_view s \<longleftrightarrow> truthy_val (capturedImage s) \<and> \<not> showModal s"

text \<open>
  A session is the screen together with the promises that have not settled yet: calls of
  the camera, calls of the picker, and requests to the model (those sent and not among
  the \<open>settled\<close> ones). An event is a press of a button that the current view offers, or
  the settling of one of these promises, which runs the rest of its handler.
\<close>

record session =
  scr :: screen
  capturing :: nat
  picking :: nat
  settled :: nat

definition start :: session where
  "start = \<lparr>scr = initial, capturing = 0, picking = 0, settled = 0\<rparr>"

definition in_flight :: "session \<Rightarrow> nat" where
  "in_flight w = requests (scr w) - settled w"

datatype event =
    PressCapture
  | CaptureSettled "photo option settled"
  | PressPick
  | PickSettled "pick_result settled"
  | PressFlip
  | PressTakeAnother
  | PressClose
  | PressModalTakeAnother
  | RequestSettled "jsstring settled"

definition camera_view :: "screen \<Rightarrow> bool" where
  "camera_view s \<longleftrightarrow> \<not> analysis_view s \<and> \<not> showModal s"

fun enabled :: "session \<Rightarrow> event \<Rightarrow> bool" where
  "enabled w PressCapture = camera_view (scr w)"
| "enabled w (CaptureSettled r) = (0 < capturing w)"
| "enabled w PressPick = camera_view (scr w)"
| "enabled w (PickSettled r) = (0 < picking w)"
| "enabled w PressFlip = camera_view (scr w)"
| "enabled w PressTakeAnother = analysis_view (scr w)"
| "enabled w PressClose = (\<not> analysis_view (scr w) \<and> showModal (scr w))"
| "enabled w PressModalTakeAnother = (\<not> analysis_view (scr w) \<and> showModal (scr w))"
| "enabled w (RequestSettled r) = (0 < in_flight w)"

fun fire :: "env \<Rightarrow> event \<Rightarrow> session \<Rightarrow> session" where
  "fire e PressCapture w = (if cameraRef e then w\<lparr>capturing := Suc (capturing w)\<rparr> else w)"
| "fire e (CaptureSettled r) w =
     w\<lparr>scr := takePicture e r (scr w), capturing := capturing w - 1\<rparr>"
| "fire e PressPick w = w\<lparr>picking := Suc (picking w)\<rparr>"
| "fire e (PickSettled r) w = w\<lparr>scr := pickImage e r (scr w), picking := picking w - 1\<rparr>"
| "fire e PressFlip w = w\<lparr>scr := toggleCameraFacing (scr w)\<rparr>"
| "fire e PressTakeAnother w = w\<lparr>scr := resetAnalysis (scr w)\<rparr>"
| "fire e PressClose w = w\<lparr>scr := (scr w)\<lparr>showModal := False\<rparr>\<rparr>"
| "fire e PressModalTakeAnother w = w\<lparr>scr := resetAnalysis ((scr w)\<lparr>showModal := False\<rparr>)\<rparr>"
| "fire e (RequestSettled r) w =
     w\<lparr>scr := analyzeRoom_settled r (scr w), settled := Suc (settled w)\<rparr>"

text \<open>A sequence of events, each one possible when it happens.\<close>

fun run_events :: "env \<Rightarrow> event list \<Rightarrow> session \<Rightarrow> session option" where
  "run_events e [] w = Some w"
| "run_events e (ev # evs) w = (if enabled w ev then run_events e evs (fire e ev w) else None)"

section \<open>Texts with well-formed headings\<close>

text \<open>
  A heading marker is \<open>**\<close>, a numeral (one digit or more), a period, a label (one code
  unit or more, none of them a colon; white space after the period belongs to it), a
  colon and \<open>**\<close>. The pattern captures the marker without its delimiters.
\<close>

definition wf_numeral :: "jsstring \<Rightarrow> bool" where
  "wf_numeral ds \<longleftrightarrow> ds \<noteq> [] \<and> list_all isDigit ds"

definition wf_label :: "jsstring \<Rightarrow> bool" where
  "wf_label nc \<longleftrightarrow> nc \<noteq> [] \<and> colon \<notin> set nc"

definition label :: "jsstring \<Rightarrow> jsstring \<Rightarrow> jsstring" where
  "label ds nc = ds @ dot # nc @ [colon]"

definition marker :: "jsstring \<Rightarrow> jsstring \<Rightarrow> jsstring" where
  "marker ds nc = star # star # label ds nc @ [star, star]"

text \<open>
  A block is a numeral, a label and the content after the marker; \<open>build\<close> is the text
  of a sequence of blocks. \<open>marker_free c X\<close>: in the text \<open>c\<close> followed by \<open>X\<close>, the heading
  pattern matches at no index inside \<open>c\<close>. In a well-formed sequence of blocks no content
  holds the start of a match, so that the markers of the text are those of the blocks.
\<close>

type_synonym block = "jsstring \<times> jsstring \<times> jsstring"

fun build :: "block list \<Rightarrow> jsstring" where
  "build [] = []"
| "build ((ds, nc, c) # bs) = marker ds nc @ c @ build bs"

fun marker_free :: "jsstring \<Rightarrow> jsstring \<Rightarrow> bool" where
  "marker_free [] X = True"
| "marker_free (c # cs) X = (exec_at heading_rx 0 (c # cs @ X) = None \<and> marker_free cs X)"

fun wf_blocks :: "block list \<Rightarrow> bool" where
  "wf_blocks [] = True"
| "wf_blocks ((ds, nc, c) # bs) =
     (wf_numeral ds \<and> wf_label nc \<and> marker_free c (build bs) \<and> wf_blocks bs)"

text \<open>The section the result modal shows for a block.\<close>

definition section_of :: "block \<Rightarrow> section_view" where
  "section_of b =
     (case b of (ds, nc, c) \<Rightarrow>
        \<lparr>sectionHeading = trimStart nc @ [colon],
         sectionContent = renderFormattedContent (trim c)\<rparr>)"




section \<open>Auxiliary definitions\<close>

text \<open>The pieces the split returns for a sequence of blocks; the loop of
  \<open>formatAnalysisText\<close> as a recursion over the pieces, two by two; patterns without \<open>^\<close>,
  whose matches do not depend on the index, and the shift of a matcher state.\<close>

fun pieces :: "block list \<Rightarrow> jsstring list" where
  "pieces [] = []"
| "pieces ((ds, nc, c) # bs) = label ds nc # c # pieces bs"

fun fmt_pairs :: "jsstring list \<Rightarrow> fsection list" where
  "fmt_pairs (h # c # r) =
     (if truthy h \<and> truthy c
      then \<lparr>heading = replace numeral_rx [] h, content = trim c\<rparr> # fmt_pairs r
      else fmt_pairs r)"
| "fmt_pairs [h] = []"
| "fmt_pairs [] = []"

fun bol_free :: "rx \<Rightarrow> bool" where
  "bol_free Bol = False"
| "bol_free (Seq r1 r2) = (bol_free r1 \<and> bol_free r2)"
| "bol_free (Group r) = bol_free r"
| "bol_free r = True"

definition shift :: "nat \<Rightarrow> mstate \<Rightarrow> mstate" where
  "shift d st = (case st of (j, s, cp) \<Rightarrow> (j + d, s, cp))"

section \<open>The matcher on the three patterns\<close>

lemma chars [simp]:
  "\<not> isDigit dot" "\<not> isSpace colon" "\<not> isDigit star" "\<not> isSpace star" "star \<noteq> colon" "dot \<noteq> colon"
  "\<not> isDigit colon" "\<not> isSpace dot" "newline \<noteq> star" "isSpace newline" "isSpace space" "\<not> isSpace bullet"
  by (simp_all add: isDigit_def isSpace_def dot_def colon_def star_def newline_def space_def bullet_def)

lemma star_m_append_max:
  "\<forall>x\<in>set xs. atom_ok a x \<Longrightarrow> (t = [] \<or> \<not> atom_ok a (hd t)) \<Longrightarrow>
   k (i + length xs, t, cp) = Some r \<Longrightarrow> star_m a i (xs @ t) cp k = Some r"
proof (induction xs arbitrary: i)
  case Nil
  then show ?case by (cases t) auto
next
  case (Cons x xs)
  then have "star_m a (Suc i) (xs @ t) cp k = Some r" by simp
  with Cons.prems show ?case by simp
qed

lemma star_m_result:
  "star_m a i s cp k = Some r \<Longrightarrow>
   \<exists>m\<le>length (takeWhile (atom_ok a) s). k (i + m, drop m s, cp) = Some r"
proof (induction s arbitrary: i)
  case Nil
  then show ?case by simp
next
  case (Cons c cs)
  show ?case
  proof (cases "atom_ok a c \<and> star_m a (Suc i) cs cp k \<noteq> None")
    case True
    with Cons.prems have "star_m a (Suc i) cs cp k = Some r" by auto
    from Cons.IH [OF this] obtain m where "m \<le> length (takeWhile (atom_ok a) cs)"
      "k (Suc i + m, drop m cs, cp) = Some r" by blast
    with True show ?thesis by (intro exI [of _ "Suc m"]) simp
  next
    case False
    with Cons.prems have "k (i, c # cs, cp) = Some r"
      by (cases "star_m a (Suc i) cs cp k") (auto split: if_splits)
    then show ?thesis by (intro exI [of _ 0]) simp
  qed
qed

lemma star_m_not_None:
  "k (i, s, cp) \<noteq> None \<Longrightarrow> star_m a i s cp k \<noteq> None"
  by (cases s) (auto split: option.splits)

lemma star_m_Some:
  "star_m a i s cp Some = Some (i + length (takeWhile (atom_ok a) s), dropWhile (atom_ok a) s, cp)"
  by (induction s arbitrary: i) auto


lemma takeWhile_stop_le:
  "\<not> P x \<Longrightarrow> length (takeWhile P (xs @ x # t)) \<le> length xs"
  by (induction xs) auto

lemma heading_rx_marker:
  assumes ds: "wf_numeral ds" and nc: "wf_label nc"
  shows "exec_at heading_rx i (marker ds nc @ X) =
           Some (i + length (marker ds nc), X, Some (label ds nc))"
proof -
  define tl0 where "tl0 = colon # star # star # X"
  define s2 where "s2 = ds @ dot # nc @ tl0"
  define kf :: "mstate \<Rightarrow> mstate option"
    where "kf = (\<lambda>st. one_m (Lit star) st (\<lambda>st'. one_m (Lit star) st' Some))"
  define kg :: "mstate \<Rightarrow> mstate option"
    where "kg = (\<lambda>st'. case st' of (j, s', cp') \<Rightarrow> kf (j, s', Some (take (j - Suc (Suc i)) s2)))"
  define k3 :: "mstate \<Rightarrow> mstate option" where "k3 = (\<lambda>st. one_m (Lit colon) st kg)"
  define k2 :: "mstate \<Rightarrow> mstate option"
    where "k2 = (\<lambda>st. one_m (NotLit colon) st (\<lambda>st'. case st' of (j, s, cp) \<Rightarrow> star_m (NotLit colon) j s cp k3))"
  define k1 :: "mstate \<Rightarrow> mstate option"
    where "k1 = (\<lambda>st. one_m (Lit dot) st (\<lambda>st'. case st' of (j, s, cp) \<Rightarrow> star_m Space j s cp k2))"
  define R :: mstate where "R = (i + length (marker ds nc), X, Some (label ds nc))"
  define b where "b = Suc (Suc (Suc (i + length ds)))"
  have len: "length (marker ds nc) = length ds + length nc + 6"
    by (simp add: marker_def label_def)
  have a: "k3 (b + length nc, tl0, None) = Some R"
    by (simp add: k3_def kg_def kf_def tl0_def R_def s2_def b_def len label_def)
  have k2_lt: "k2 (b + m, drop m nc @ tl0, None) = Some R" if "m < length nc" for m
  proof -
    from that obtain x xs where d: "drop m nc = x # xs"
      by (cases "drop m nc") auto
    then have "set (x # xs) \<subseteq> set nc" by (metis set_drop_subset)
    with nc have x: "x \<noteq> colon" and xs: "\<forall>y\<in>set xs. atom_ok (NotLit colon) y"
      by (auto simp: wf_label_def)
    from d have "length nc - m = Suc (length xs)"
      by (metis length_drop length_Cons)
    with that have l: "Suc (b + m + length xs) = b + length nc" by simp
    have "star_m (NotLit colon) (Suc (b + m)) (xs @ tl0) None k3 = Some R"
      by (rule star_m_append_max [OF xs]) (simp_all add: tl0_def l a [unfolded tl0_def])
    with x d show ?thesis by (simp add: k2_def)
  qed
  have k2_eq: "k2 (b + length nc, tl0, None) = None"
    by (simp add: k2_def tl0_def)
  have st: "star_m Space b (nc @ tl0) None k2 = Some R"
  proof (cases "star_m Space b (nc @ tl0) None k2")
    case None
    from nc have "0 < length nc" by (simp add: wf_label_def)
    from k2_lt [OF this] have "k2 (b, nc @ tl0, None) \<noteq> None" by simp
    then have "star_m Space b (nc @ tl0) None k2 \<noteq> None" by (rule star_m_not_None)
    with None show ?thesis by simp
  next
    case (Some r)
    from star_m_result [OF this] obtain m
      where m: "m \<le> length (takeWhile (atom_ok Space) (nc @ tl0))"
        and k: "k2 (b + m, drop m (nc @ tl0), None) = Some r" by blast
    have "length (takeWhile (atom_ok Space) (nc @ tl0)) \<le> length nc"
      unfolding tl0_def by (rule takeWhile_stop_le) simp
    with m have mle: "m \<le> length nc" by simp
    show ?thesis
    proof (cases "m = length nc")
      case True
      with k k2_eq show ?thesis by simp
    next
      case False
      with mle have "m < length nc" by simp
      from k2_lt [OF this] k mle Some show ?thesis by simp
    qed
  qed
  have d: "k1 (b - 1, dot # nc @ tl0, None) = Some R"
    using st by (simp add: k1_def b_def)
  from ds obtain d0 ds' where dsc: "ds = d0 # ds'" and d0: "isDigit d0"
    and ds': "\<forall>y\<in>set ds'. atom_ok Digit y"
    by (cases ds) (auto simp: wf_numeral_def list_all_iff)
  have "star_m Digit (Suc (Suc (Suc i))) (ds' @ dot # nc @ tl0) None k1 = Some R"
    by (rule star_m_append_max [OF ds']) (use d in \<open>simp_all add: b_def dsc\<close>)
  then have "run (Seq (Plus Digit) (Seq (One (Lit dot))
                 (Seq (Star Space) (Seq (Plus (NotLit colon)) (One (Lit colon))))))
               (Suc (Suc i), s2, None) kg = Some R"
    using d0 by (simp add: s2_def dsc k1_def k2_def k3_def)
  then show ?thesis
    unfolding R_def
    by (simp add: exec_at_def heading_rx_def marker_def label_def kg_def kf_def s2_def tl0_def)
qed

lemma shift_simp [simp]: "shift d (j, s, cp) = (j + d, s, cp)"
  by (simp add: shift_def)

lemma star_m_shift:
  "star_m a (i + d) s cp k = star_m a i s cp (\<lambda>st. k (shift d st))"
proof (induction s arbitrary: i)
  case Nil
  show ?case by simp
next
  case (Cons c cs)
  from Cons [of "Suc i"]
  have "star_m a (Suc (i + d)) cs cp k = star_m a (Suc i) cs cp (\<lambda>st. k (shift d st))"
    by simp
  then show ?case by (simp split: option.splits)
qed

lemma one_m_shift:
  "one_m a (shift d st) k = one_m a st (\<lambda>st. k (shift d st))"
proof -
  obtain i s cp where st: "st = (i, s, cp)" by (cases st)
  show ?thesis unfolding st by (cases s) simp_all
qed

lemma run_shift:
  "bol_free re \<Longrightarrow> run re (shift d st) k = run re st (\<lambda>st'. k (shift d st'))"
proof (induction re arbitrary: st k)
  case (One a)
  show ?case by (simp add: one_m_shift)
next
  case (Star a)
  obtain i s cp where st: "st = (i, s, cp)" by (cases st)
  show ?case unfolding st by (simp add: star_m_shift)
next
  case (Plus a)
  have "\<And>st'. (case shift d st' of (i, s, cp) \<Rightarrow> star_m a i s cp k) =
      (case st' of (i, s, cp) \<Rightarrow> star_m a i s cp (\<lambda>st. k (shift d st)))"
    by (auto simp: star_m_shift split: prod.splits)
  then show ?case by (simp add: one_m_shift)
next
  case (Seq r1 r2)
  then show ?case by simp
next
  case (Group re)
  obtain i s cp where st: "st = (i, s, cp)" by (cases st)
  let ?k = "\<lambda>i st'. case st' of (j, s', cp') \<Rightarrow> k (j, s', Some (take (j - i) s))"
  have e: "(\<lambda>st'. ?k (i + d) (shift d st')) = (\<lambda>st'. shift_k st')" if
    "shift_k = (\<lambda>st'. case st' of (j, s', cp') \<Rightarrow> k (shift d (j, s', Some (take (j - i) s))))"
    for shift_k
    unfolding that by (auto simp: fun_eq_iff)
  from Group have "run re (shift d st) (?k (i + d)) = run re st (\<lambda>st'. ?k (i + d) (shift d st'))"
    by simp
  then show ?case unfolding st by (simp add: e)
next
  case Bol
  then show ?case by simp
qed

lemma star_m_map:
  "star_m a i s cp (\<lambda>st. map_option f (k st)) = map_option f (star_m a i s cp k)"
  by (induction s arbitrary: i) (auto split: option.splits)

lemma one_m_map:
  "one_m a st (\<lambda>st. map_option f (k st)) = map_option f (one_m a st k)"
proof -
  obtain i s cp where st: "st = (i, s, cp)" by (cases st)
  show ?thesis unfolding st by (cases s) simp_all
qed

lemma run_map:
  "run re st (\<lambda>st'. map_option f (k st')) = map_option f (run re st k)"
proof (induction re arbitrary: st k)
  case (One a)
  show ?case by (simp add: one_m_map)
next
  case (Star a)
  show ?case by (cases st) (simp add: star_m_map)
next
  case (Plus a)
  have "(\<lambda>st'. case st' of (i, s, cp) \<Rightarrow> star_m a i s cp (\<lambda>st'. map_option f (k st'))) =
        (\<lambda>st'. map_option f (case st' of (i, s, cp) \<Rightarrow> star_m a i s cp k))"
    by (auto simp: star_m_map split: prod.splits)
  then show ?case by (simp add: one_m_map)
next
  case (Seq r1 r2)
  then show ?case by simp
next
  case (Group re)
  obtain i s cp where st: "st = (i, s, cp)" by (cases st)
  let ?k = "\<lambda>st'. case st' of (j, s', cp') \<Rightarrow> k (j, s', Some (take (j - i) s))"
  have "run re st (\<lambda>st'. case st' of (j, s', cp') \<Rightarrow> map_option f (k (j, s', Some (take (j - i) s))))
        = run re st (\<lambda>st'. map_option f (?k st'))"
    by (rule arg_cong [where f = "run re st"]) (auto simp: fun_eq_iff)
  also have "\<dots> = map_option f (run re st ?k)" by (rule Group.IH)
  finally show ?case unfolding st by simp
next
  case Bol
  show ?case by (cases st) simp
qed

lemma exec_at_shift:
  "bol_free re \<Longrightarrow> exec_at re (i + d) s = map_option (shift d) (exec_at re i s)"
  using run_shift [of re d "(i, s, None)" Some] run_map [of re "(i, s, None)" "shift d" Some]
  by (simp add: exec_at_def)

lemma heading_rx_index:
  "exec_at heading_rx i s = None \<longleftrightarrow> exec_at heading_rx 0 s = None"
  using exec_at_shift [of heading_rx 0 i s] by (simp add: heading_rx_def)

section \<open>The split of a text of blocks, and the loop over its pieces\<close>

declare fmt_loop.simps [simp del]

lemma split_loop_free:
  "marker_free a X \<Longrightarrow>
   split_loop heading_rx q pend (a @ X) = split_loop heading_rx (q + length a) (pend @ a) X"
proof (induction a arbitrary: q pend)
  case Nil
  show ?case by simp
next
  case (Cons c cs)
  then have "exec_at heading_rx q (c # cs @ X) = None"
    using heading_rx_index [of q "c # cs @ X"] by simp
  moreover from Cons have "split_loop heading_rx (Suc q) (pend @ [c]) (cs @ X) =
      split_loop heading_rx (Suc q + length cs) ((pend @ [c]) @ cs) X"
    by simp
  ultimately show ?case by simp
qed

lemma split_loop_marker:
  assumes "wf_numeral ds" "wf_label nc"
  shows "split_loop heading_rx q pend (marker ds nc @ X) =
           Some pend # Some (label ds nc) #
             split_loop heading_rx (q + length (marker ds nc)) [] X"
proof -
  have m: "marker ds nc @ X = star # (star # label ds nc @ [star, star]) @ X"
    by (simp add: marker_def)
  have "exec_at heading_rx q (star # (star # label ds nc @ [star, star]) @ X) =
      Some (q + length (marker ds nc), X, Some (label ds nc))"
    using heading_rx_marker [OF assms, of q X] by (simp add: marker_def)
  moreover have "q + length (marker ds nc) \<noteq> q - length pend"
    by (simp add: marker_def)
  ultimately show ?thesis unfolding m by (simp del: append_Cons)
qed

lemma split_loop_build:
  "wf_blocks bs \<Longrightarrow>
   split_loop heading_rx q pend (build bs) = map Some (pend # pieces bs)"
proof (induction bs arbitrary: q pend)
  case Nil
  show ?case by simp
next
  case (Cons b bs)
  obtain ds nc c where b: "b = (ds, nc, c)" by (cases b)
  from Cons.prems b have wf: "wf_numeral ds" "wf_label nc" and free: "marker_free c (build bs)"
    and bs: "wf_blocks bs" by simp_all
  have "split_loop heading_rx q pend (build (b # bs)) =
      Some pend # Some (label ds nc) #
        split_loop heading_rx (q + length (marker ds nc)) [] (c @ build bs)"
    unfolding b using split_loop_marker [OF wf] by simp
  also have "split_loop heading_rx (q + length (marker ds nc)) [] (c @ build bs) =
      split_loop heading_rx (q + length (marker ds nc) + length c) c (build bs)"
    using split_loop_free [OF free] by simp
  also have "\<dots> = map Some (c # pieces bs)" by (rule Cons.IH [OF bs])
  finally show ?case by (simp add: b)
qed

lemma split_pre_build:
  assumes "marker_free pre (build bs)" "wf_blocks bs"
  shows "split heading_rx (pre @ build bs) = map Some (pre # pieces bs)"
proof (cases "pre @ build bs = []")
  case True
  then have "pre = []" "build bs = []" by simp_all
  moreover from this have "pieces bs = []"
    by (cases bs) (auto simp: marker_def)
  moreover have "exec_at heading_rx 0 [] = None"
    by (simp add: exec_at_def heading_rx_def)
  ultimately show ?thesis by (simp add: split_def)
next
  case False
  then have "split heading_rx (pre @ build bs) = split_loop heading_rx 0 [] (pre @ build bs)"
    unfolding split_def by (simp only: if_False)
  also have "\<dots> = split_loop heading_rx (length pre) pre (build bs)"
    using split_loop_free [OF assms(1), of 0 "[]"] by simp
  also have "\<dots> = map Some (pre # pieces bs)" by (rule split_loop_build [OF assms(2)])
  finally show ?thesis .
qed

lemma filterBoolean_Some: "filterBoolean (map Some xs) = filter truthy xs"
  by (induction xs) simp_all

lemma fmt_loop_pairs:
  "fmt_loop xs i acc = Inr (acc @ fmt_pairs (drop i xs))"
proof (induction xs i acc rule: fmt_loop.induct)
  case (1 xs i acc)
  show ?case
  proof (cases "i < length xs")
    case False
    then show ?thesis by (subst fmt_loop.simps) simp
  next
    case True
    note i = this
    then have d: "drop i xs = xs ! i # drop (Suc i) xs" by (simp add: Cons_nth_drop_Suc)
    show ?thesis
    proof (cases "Suc i < length xs")
      case False
      with i have "drop (Suc i) xs = []" "nth_js xs (i + 1) = None" "drop (i + 2) xs = []"
        by (simp_all add: nth_js_def)
      moreover from this i have "fmt_loop xs (i + 2) acc = Inr acc"
        using "1.IH"(2) [of "nth_js xs i" "[]"] by (simp add: or_empty_def truthy_def)
      ultimately show ?thesis using i d
        by (subst fmt_loop.simps) (simp add: or_empty_def truthy_def Let_def)
    next
      case True
      then have d2: "drop (Suc i) xs = xs ! Suc i # drop (i + 2) xs"
        by (simp add: Cons_nth_drop_Suc)
      let ?h = "xs ! i" and ?c = "xs ! Suc i"
      have n: "nth_js xs i = Some ?h" "nth_js xs (i + 1) = Some ?c"
        using i True by (simp_all add: nth_js_def)
      show ?thesis
      proof (cases "truthy ?h \<and> truthy ?c")
        case True
        then have "fmt_loop xs (i + 2) (acc @ [\<lparr>heading = replace numeral_rx [] ?h, content = trim ?c\<rparr>])
            = Inr ((acc @ [\<lparr>heading = replace numeral_rx [] ?h, content = trim ?c\<rparr>]) @ fmt_pairs (drop (i + 2) xs))"
          using "1.IH"(1) [of "nth_js xs i" "or_empty (nth_js xs (i + 1))" ?h] i n
          by (simp add: or_empty_def truthy_val_def)
        with True show ?thesis using i n d d2
          by (subst fmt_loop.simps) (simp add: or_empty_def truthy_val_def Let_def)
      next
        case False
        then have "fmt_loop xs (i + 2) acc = Inr (acc @ fmt_pairs (drop (i + 2) xs))"
          using "1.IH"(2) [of "nth_js xs i" "or_empty (nth_js xs (i + 1))"] i n
          by (auto simp: or_empty_def truthy_val_def truthy_def)
        with False show ?thesis using i n d d2
          by (subst fmt_loop.simps) (auto simp: or_empty_def truthy_val_def Let_def truthy_def)
      qed
    qed
  qed
qed

lemma formatAnalysisText_pairs:
  "formatAnalysisText t = Inr (fmt_pairs (filterBoolean (split heading_rx t)))"
  by (simp add: formatAnalysisText_def fmt_loop_pairs)

section \<open>Headings, sections and lines\<close>

lemma dropWhile_snoc_stop: "\<not> P x \<Longrightarrow> dropWhile P (xs @ [x]) = dropWhile P xs @ [x]"
  by (induction xs) auto

lemma numeral_rx_label:
  assumes "wf_numeral ds"
  shows "replace numeral_rx [] (label ds nc) = trimStart nc @ [colon]"
proof -
  from assms obtain d0 ds' where dsc: "ds = d0 # ds'" and d0: "isDigit d0"
    and ds': "\<forall>y\<in>set ds'. atom_ok Digit y"
    by (cases ds) (auto simp: wf_numeral_def list_all_iff)
  define k :: "mstate \<Rightarrow> mstate option"
    where "k = (\<lambda>st. one_m (Lit dot) st (\<lambda>st'. case st' of (j, s, cp) \<Rightarrow> star_m Space j s cp Some))"
  define e where "e = Suc (Suc (length ds')) + length (takeWhile (atom_ok Space) (nc @ [colon]))"
  have dw: "dropWhile (atom_ok Space) (nc @ [colon]) = trimStart nc @ [colon]"
    using dropWhile_snoc_stop [of isSpace colon nc]
    by (simp add: trimStart_def cong: dropWhile_cong)
  have "k (Suc 0 + length ds', dot # nc @ [colon], None) = Some (e, trimStart nc @ [colon], None)"
    by (simp add: k_def star_m_Some dw e_def)
  then have "star_m Digit (Suc 0) (ds' @ dot # nc @ [colon]) None k =
      Some (e, trimStart nc @ [colon], None)"
    by (intro star_m_append_max [OF ds']) simp_all
  then have "exec_at numeral_rx 0 (label ds nc) = Some (e, trimStart nc @ [colon], None)"
    using d0 by (simp add: exec_at_def numeral_rx_def label_def dsc k_def)
  then show ?thesis by (simp add: replace_def label_def dsc)
qed

lemma filter_truthy_pieces:
  assumes "\<forall>(ds, nc, c)\<in>set bs. c \<noteq> []"
  shows "filter truthy (pieces bs) = pieces bs"
  using assms by (induction bs) (auto simp: truthy_def label_def)

lemma parse_pairs:
  "parse t = Inr (map render_section (fmt_pairs (filterBoolean (split heading_rx t))))"
  by (simp add: parse_def formatAnalysisText_pairs)

lemma split_build: "wf_blocks bs \<Longrightarrow> split heading_rx (build bs) = map Some ([] # pieces bs)"
  using split_pre_build [of "[]" bs] by simp

lemma build_append: "build (bs @ cs) = build bs @ build cs"
  by (induction bs) auto

lemma pieces_append: "pieces (bs @ cs) = pieces bs @ pieces cs"
  by (induction bs) auto

lemma wf_blocks_appendD: "wf_blocks (bs @ cs) \<Longrightarrow> wf_blocks cs"
  by (induction bs) auto

lemma wf_blocks_prefix:
  "wf_blocks (bs @ cs) \<Longrightarrow> \<forall>(ds, nc, c)\<in>set bs. wf_numeral ds"
  by (induction bs) auto

lemma trim_blank:
  assumes "list_all isSpace ws"
  shows "trim ws = []"
proof -
  from assms have "dropWhile isSpace ws = []"
    unfolding list_all_iff dropWhile_eq_Nil_conv .
  then show ?thesis unfolding trim_def by (simp only: rev.simps dropWhile.simps)
qed

lemma fmt_pairs_pieces:
  assumes "\<forall>(ds, nc, c)\<in>set bs. wf_numeral ds \<and> c \<noteq> []"
  shows "map render_section (fmt_pairs (pieces bs @ r)) =
           map section_of bs @ map render_section (fmt_pairs r)"
  using assms
proof (induction bs)
  case Nil
  show ?case by simp
next
  case (Cons b bs)
  obtain ds nc c where b: "b = (ds, nc, c)" by (cases b)
  from Cons.prems b have wf: "wf_numeral ds" and c: "c \<noteq> []"
    and bs: "\<forall>(ds, nc, c)\<in>set bs. wf_numeral ds \<and> c \<noteq> []"
    by simp_all
  have "truthy (label ds nc)" by (simp add: truthy_def label_def)
  with c Cons.IH [OF bs] show ?case
    by (simp add: b truthy_def numeral_rx_label [OF wf] render_section_def section_of_def)
qed














section \<open>The claims\<close>

subsection \<open>The response parser\<close>

text \<open>
  C1 (as stated): a text with N well-formed heading markers parses to exactly N sections,
  in the order of the markers, each heading being the label without numeral, period and
  trailing colon. The parser keeps the colon (first text: the heading is \<open>Design Style:\<close>),
  and a marker without content after it gets no section (second text: two markers, one
  section).
\<close>

theorem headings_as_stated_counterexample:
  "parse (js ''**1. Design Style:** Modern'') =
     Inr [\<lparr>sectionHeading = js ''Design Style:'',
            sectionContent = [\<lparr>style = ContentText, children = js ''Modern''\<rparr>]\<rparr>] \<and>
   js ''Design Style:'' \<noteq> js ''Design Style'' \<and>
   parse (js ''**1. A:** x**2. B:**'') =
     Inr [\<lparr>sectionHeading = js ''A:'',
            sectionContent = [\<lparr>style = ContentText, children = js ''x''\<rparr>]\<rparr>]"
  by code_simp

text \<open>
  C1 (amended): for every text that is a sequence of N blocks, each a well-formed heading
  marker followed by a non-empty content in which the heading pattern does not match,
  \<open>parse\<close> returns exactly N sections in the order of the blocks; the heading of a section
  is the label of its marker without the numeral, the period and the white space after
  the period, with the trailing colon kept, and its body is the rendering of the trimmed
  content.
\<close>

theorem headings_in_order:
  assumes "wf_blocks bs" and "list_all (\<lambda>(ds, nc, c). c \<noteq> []) bs"
  shows "parse (build bs) = Inr (map section_of bs)"
proof -
  from assms(2) have ne: "\<forall>(ds, nc, c)\<in>set bs. c \<noteq> []"
    by (simp add: list_all_iff)
  from assms(1) ne have "\<forall>(ds, nc, c)\<in>set bs. wf_numeral ds \<and> c \<noteq> []"
    using wf_blocks_prefix [of bs "[]"] by auto
  from fmt_pairs_pieces [OF this, of "[]"] show ?thesis
    by (simp add: parse_pairs split_build [OF assms(1)] filterBoolean_Some truthy_def [of "[]"]
        filter_truthy_pieces [OF ne])
qed

theorem headings_in_order_witness:
  "wf_blocks
     [(js ''1'', js '' Design Style'', js '' Modern\<newline>* Clean lines\<newline>''),
      (js ''2'', js '' Lighting'', js '' Bright'')] \<and>
   list_all (\<lambda>(ds, nc, c). c \<noteq> [])
     [(js ''1'', js '' Design Style'', js '' Modern\<newline>* Clean lines\<newline>''),
      (js ''2'', js '' Lighting'', js '' Bright'')] \<and>
   parse (build
     [(js ''1'', js '' Design Style'', js '' Modern\<newline>* Clean lines\<newline>''),
      (js ''2'', js '' Lighting'', js '' Bright'')]) =
     Inr [\<lparr>sectionHeading = js ''Design Style:'',
            sectionContent = [\<lparr>style = ContentText, children = js ''Modern''\<rparr>,
                              \<lparr>style = Subheading, children = bullet # js '' Clean lines''\<rparr>]\<rparr>,
          \<lparr>sectionHeading = js ''Lighting:'',
            sectionContent = [\<lparr>style = ContentText, children = js ''Bright''\<rparr>]\<rparr>]"
proof -
  have w: "wf_blocks
     [(js ''1'', js '' Design Style'', js '' Modern\<newline>* Clean lines\<newline>''),
      (js ''2'', js '' Lighting'', js '' Bright'')]"
    by code_simp
  have n: "list_all (\<lambda>(ds, nc, c). c \<noteq> [])
     [(js ''1'', js '' Design Style'', js '' Modern\<newline>* Clean lines\<newline>''),
      (js ''2'', js '' Lighting'', js '' Bright'')]"
    by code_simp
  have r: "map section_of
     [(js ''1'', js '' Design Style'', js '' Modern\<newline>* Clean lines\<newline>''),
      (js ''2'', js '' Lighting'', js '' Bright'')] =
         [\<lparr>sectionHeading = js ''Design Style:'',
            sectionContent = [\<lparr>style = ContentText, children = js ''Modern''\<rparr>,
                              \<lparr>style = Subheading, children = bullet # js '' Clean lines''\<rparr>]\<rparr>,
          \<lparr>sectionHeading = js ''Lighting:'',
            sectionContent = [\<lparr>style = ContentText, children = js ''Bright''\<rparr>]\<rparr>]"
    by code_simp
  from headings_in_order [OF w n] w n show ?thesis
    unfolding r by (intro conjI)
qed

text \<open>
  C2 (as stated): the scenario text parses to the headings \<open>Design Style\<close> and \<open>Lighting\<close>
  with the bodies [PLAIN \<open>Modern\<close>, SUBPOINT \<open>Clean lines\<close>] and [PLAIN \<open>Bright\<close>]. The
  parser does not return this: it keeps the colon of a heading and puts the bullet glyph
  and a space in front of a sub-point.
\<close>

theorem scenario_A_as_stated_counterexample:
  "parse (js ''**1. Design Style:** Modern\<newline>* Clean lines\<newline>**2. Lighting:** Bright'') \<noteq>
   Inr [\<lparr>sectionHeading = js ''Design Style'',
          sectionContent = [\<lparr>style = ContentText, children = js ''Modern''\<rparr>,
                            \<lparr>style = Subheading, children = js ''Clean lines''\<rparr>]\<rparr>,
        \<lparr>sectionHeading = js ''Lighting'',
          sectionContent = [\<lparr>style = ContentText, children = js ''Bright''\<rparr>]\<rparr>]"
  by code_simp

text \<open>
  C2 (amended): the scenario text parses to exactly two sections, the first with heading
  \<open>Design Style:\<close> and body [PLAIN \<open>Modern\<close>, SUBPOINT \<open>\<bullet> Clean lines\<close>], the second
  with heading \<open>Lighting:\<close> and body [PLAIN \<open>Bright\<close>].
\<close>

theorem scenario_A_parse:
  "parse (js ''**1. Design Style:** Modern\<newline>* Clean lines\<newline>**2. Lighting:** Bright'') =
   Inr [\<lparr>sectionHeading = js ''Design Style:'',
          sectionContent = [\<lparr>style = ContentText, children = js ''Modern''\<rparr>,
                            \<lparr>style = Subheading, children = bullet # js '' Clean lines''\<rparr>]\<rparr>,
        \<lparr>sectionHeading = js ''Lighting:'',
          sectionContent = [\<lparr>style = ContentText, children = js ''Bright''\<rparr>]\<rparr>]"
  by code_simp

text \<open>
  C3: non-empty text in front of the first heading marker is discarded, and the first
  section's heading is the label of the first marker. The parser does not do this: the
  text in front becomes the heading of the first section and the label of the first
  marker its body, and the content of the marker is lost.
\<close>

theorem pre_text_taken_as_heading:
  "parse (js ''Intro\<newline>**1. Design Style:** Modern'') =
     Inr [\<lparr>sectionHeading = js ''Intro\<newline>'',
            sectionContent = [\<lparr>style = ContentText, children = js ''1. Design Style:''\<rparr>]\<rparr>]"
  by code_simp




text \<open>
  C5 (as stated): a heading marker followed by no content still gets a section, with an
  empty body. The parser returns no section for it: alone in the text, or as the last
  marker of the text.
\<close>

theorem empty_content_as_stated_counterexample:
  "parse (js ''**1. A:**'') = Inr [] \<and>
   parse (js ''**1. A:** x\<newline>**2. B:**'') =
     Inr [\<lparr>sectionHeading = js ''A:'',
            sectionContent = [\<lparr>style = ContentText, children = js ''x''\<rparr>]\<rparr>]"
  by code_simp

text \<open>
  C5 (amended): in a text of well-formed blocks with non-empty contents, a last heading
  marker followed by nothing up to the end of the text gets no section (the loop pushes
  a section only when its content is non-empty); a last heading marker followed by white
  space only gets a section with an empty body.
\<close>

theorem heading_without_content:
  assumes "wf_blocks (bs @ [(ds, nc, ws)])"
    and "list_all (\<lambda>(ds, nc, c). c \<noteq> []) bs"
    and "list_all isSpace ws"
  shows "parse (build (bs @ [(ds, nc, ws)])) =
           Inr (map section_of bs @
                (if ws = [] then []
                 else [\<lparr>sectionHeading = trimStart nc @ [colon], sectionContent = []\<rparr>]))"
proof -
  from assms(1) have wf: "wf_numeral ds"
    using wf_blocks_appendD [of bs "[(ds, nc, ws)]"] by simp
  from assms(2) have ne: "\<forall>(ds, nc, c)\<in>set bs. c \<noteq> []"
    by (simp add: list_all_iff)
  from assms(1) ne have bs: "\<forall>(ds, nc, c)\<in>set bs. wf_numeral ds \<and> c \<noteq> []"
    using wf_blocks_prefix [of bs "[(ds, nc, ws)]"] by auto
  have l: "truthy (label ds nc)" by (simp add: truthy_def label_def)
  have "split heading_rx (build (bs @ [(ds, nc, ws)])) =
      map Some ([] # pieces bs @ [label ds nc, ws])"
    by (simp add: split_build [OF assms(1)] pieces_append)
  then have "filterBoolean (split heading_rx (build (bs @ [(ds, nc, ws)]))) =
      pieces bs @ (if ws = [] then [label ds nc] else [label ds nc, ws])"
    using l by (simp only: filterBoolean_Some)
      (simp add: truthy_def [of "[]"] truthy_def [of ws] filter_truthy_pieces [OF ne])
  moreover have "renderFormattedContent [] = []"
    by (simp add: renderFormattedContent_def trim_def truthy_def)
  ultimately show ?thesis
    using l by (simp add: parse_pairs fmt_pairs_pieces [OF bs] render_section_def
        numeral_rx_label [OF wf] trim_blank [OF assms(3)] truthy_def [of ws])
qed

theorem heading_without_content_witness:
  "wf_blocks ([(js ''1'', js '' A'', js '' x'')] @ [(js ''2'', js '' B'', [])]) \<and>
   list_all (\<lambda>(ds, nc, c). c \<noteq> []) [(js ''1'', js '' A'', js '' x'')] \<and>
   list_all isSpace [] \<and>
   parse (build ([(js ''1'', js '' A'', js '' x'')] @ [(js ''2'', js '' B'', [])])) =
     Inr [\<lparr>sectionHeading = js ''A:'',
            sectionContent = [\<lparr>style = ContentText, children = js ''x''\<rparr>]\<rparr>]"
proof -
  have w: "wf_blocks ([(js ''1'', js '' A'', js '' x'')] @ [(js ''2'', js '' B'', [])])"
    by code_simp
  have n: "list_all (\<lambda>(ds, nc, c). c \<noteq> []) [(js ''1'', js '' A'', js '' x'')]"
    by code_simp
  have b: "list_all isSpace []"
    by simp
  have r: "map section_of [(js ''1'', js '' A'', js '' x'')] =
      [\<lparr>sectionHeading = js ''A:'',
         sectionContent = [\<lparr>style = ContentText, children = js ''x''\<rparr>]\<rparr>]"
    by code_simp
  from heading_without_content [OF w n b] w n b show ?thesis
    unfolding r by simp
qed

text \<open>
  C6: \<open>parse\<close> of the empty string, and \<open>parse\<close> of any text in which the heading pattern
  matches nowhere, is the empty sequence of sections, returned without an exception.
\<close>

theorem no_heading_no_section:
  "parse [] = Inr [] \<and> (marker_free t [] \<longrightarrow> parse t = Inr [])"
proof -
  have "parse t = Inr []" if "marker_free t []" for t
    using split_pre_build [of t "[]"] that
    by (cases "truthy t") (simp_all add: parse_pairs)
  moreover have "marker_free [] []" by simp
  ultimately show ?thesis by blast
qed

theorem no_heading_no_section_witness:
  "marker_free (js ''A bright room, **bold** claims: 1. none'') [] \<and>
   parse (js ''A bright room, **bold** claims: 1. none'') = Inr []"
proof -
  have m: "marker_free (js ''A bright room, **bold** claims: 1. none'') []"
    by code_simp
  with no_heading_no_section [of "js ''A bright room, **bold** claims: 1. none''"]
  show ?thesis by blast
qed

text \<open>
  C10: \<open>parse\<close>, and with it the line formatter it applies to every section, returns a
  sequence of sections for every string and never throws: the loop ends, the heading it
  calls \<open>replace\<close> on is always a string, and a content read past the end of the pieces
  is replaced by the empty string.
\<close>

theorem parse_total:
  "(\<exists>secs. parse t = Inr secs) \<and> or_empty (nth_js sections (length sections)) = []"
  by (simp add: parse_pairs nth_js_def or_empty_def)

subsection \<open>The screen\<close>

text \<open>
  C7: when no key is configured, \<open>analyzeRoom\<close> raises the configuration alert at once,
  sends no request to the model and leaves the rest of the state as it was.
\<close>

theorem missing_key_fails_fast:
  assumes "key_missing e"
  shows "analyzeRoom e b s =
           s\<lparr>effects := effects s @
                [Alert ''Error'' ''Please add your Gemini API key to environment variables'']\<rparr>
         \<and> requests (analyzeRoom e b s) = requests s"
  using assms by (simp add: analyzeRoom_def alert_def requests_def)

theorem missing_key_fails_fast_witness:
  "key_missing \<lparr>apiKey = None, cameraRef = True\<rparr> \<and>
   analyzeRoom \<lparr>apiKey = None, cameraRef = True\<rparr> (Some (js ''abc'')) initial =
     initial\<lparr>effects :=
        [Alert ''Error'' ''Please add your Gemini API key to environment variables'']\<rparr> \<and>
   requests (analyzeRoom \<lparr>apiKey = None, cameraRef = True\<rparr> (Some (js ''abc'')) initial) = 0"
proof -
  have k: "key_missing \<lparr>apiKey = None, cameraRef = True\<rparr>" by (simp add: key_missing_def)
  from missing_key_fails_fast [OF k, of "Some (js ''abc'')" initial] k
  show ?thesis by (simp add: initial_def requests_def)
qed

text \<open>
  C8 (as stated): while a request is in flight, a second capture or pick trigger is a
  no-op, so that no two requests are ever in flight. The handlers have no such guard:
  after a capture, "Take Another Photo" is offered while the request is in flight (first
  trace: \<open>loading\<close> holds, one request in flight), and the capture that follows sends a
  second request (second trace: two requests sent, none settled, two in flight).
\<close>

theorem second_request_counterexample:
  "run_events \<lparr>apiKey = Some ''k'', cameraRef = True\<rparr>
     [PressCapture,
      CaptureSettled (Resolved (Some \<lparr>uri = js ''a.jpg'', base64 = Some (js ''QQ'')\<rparr>)),
      PressTakeAnother]
     start =
   Some \<lparr>scr = \<lparr>facing = Back, capturedImage = None, analysis = [], loading = True,
            showModal = False, effects = [GenerateContent (Some (js ''QQ''))]\<rparr>,
         capturing = 0, picking = 0, settled = 0\<rparr> \<and>
   in_flight \<lparr>scr = \<lparr>facing = Back, capturedImage = None, analysis = [], loading = True,
            showModal = False, effects = [GenerateContent (Some (js ''QQ''))]\<rparr>,
         capturing = 0, picking = 0, settled = 0\<rparr> = 1 \<and>
   run_events \<lparr>apiKey = Some ''k'', cameraRef = True\<rparr>
     [PressCapture,
      CaptureSettled (Resolved (Some \<lparr>uri = js ''a.jpg'', base64 = Some (js ''QQ'')\<rparr>)),
      PressTakeAnother,
      PressCapture,
      CaptureSettled (Resolved (Some \<lparr>uri = js ''b.jpg'', base64 = Some (js ''Qg'')\<rparr>))]
     start =
   Some \<lparr>scr = \<lparr>facing = Back, capturedImage = Some (js ''b.jpg''), analysis = [],
            loading = True, showModal = False,
            effects = [GenerateContent (Some (js ''QQ'')), GenerateContent (Some (js ''Qg''))]\<rparr>,
         capturing = 0, picking = 0, settled = 0\<rparr> \<and>
   in_flight \<lparr>scr = \<lparr>facing = Back, capturedImage = Some (js ''b.jpg''), analysis = [],
            loading = True, showModal = False,
            effects = [GenerateContent (Some (js ''QQ'')), GenerateContent (Some (js ''Qg''))]\<rparr>,
         capturing = 0, picking = 0, settled = 0\<rparr> = 2"
  by (simp add: start_def initial_def takePicture_def analyzeRoom_def key_missing_def
      analysis_view_def camera_view_def truthy_val_def truthy_def resetAnalysis_def js_def
      in_flight_def requests_def)

text \<open>
  C8 (amended): while the analysis view is shown (a captured image is held and the result
  modal is hidden, as it is from a capture until "Take Another Photo" or the result), the
  screen offers neither the capture nor the pick trigger; and when no capture or pick
  triggered earlier is still pending, no event that can happen in that view sends a
  request.
\<close>

theorem analysis_view_offers_no_trigger:
  assumes "analysis_view (scr w)" and "enabled w ev"
  shows "ev \<noteq> PressCapture \<and> ev \<noteq> PressPick \<and>
         (capturing w = 0 \<and> picking w = 0 \<longrightarrow>
            requests (scr (fire e ev w)) = requests (scr w))"
  using assms
  by (cases ev) (auto simp: requests_def resetAnalysis_def analyzeRoom_settled_def alert_def
      camera_view_def split: settled.splits)

theorem analysis_view_offers_no_trigger_witness:
  "analysis_view (scr (start\<lparr>scr := initial\<lparr>capturedImage := Some (js ''a.jpg'')\<rparr>\<rparr>)) \<and>
   enabled (start\<lparr>scr := initial\<lparr>capturedImage := Some (js ''a.jpg'')\<rparr>\<rparr>) PressTakeAnother \<and>
   capturing (start\<lparr>scr := initial\<lparr>capturedImage := Some (js ''a.jpg'')\<rparr>\<rparr>) = 0 \<and>
   picking (start\<lparr>scr := initial\<lparr>capturedImage := Some (js ''a.jpg'')\<rparr>\<rparr>) = 0 \<and>
   requests (scr (fire \<lparr>apiKey = Some ''k'', cameraRef = True\<rparr> PressTakeAnother
      (start\<lparr>scr := initial\<lparr>capturedImage := Some (js ''a.jpg'')\<rparr>\<rparr>))) =
   requests (scr (start\<lparr>scr := initial\<lparr>capturedImage := Some (js ''a.jpg'')\<rparr>\<rparr>))"
proof -
  let ?w = "start\<lparr>scr := initial\<lparr>capturedImage := Some (js ''a.jpg'')\<rparr>\<rparr>"
  have v: "analysis_view (scr ?w)"
    by (simp add: analysis_view_def initial_def truthy_val_def truthy_def js_def)
  then have en: "enabled ?w PressTakeAnother"
    by simp
  have c: "capturing ?w = 0" "picking ?w = 0"
    by (simp_all add: start_def)
  from analysis_view_offers_no_trigger [OF v en, of "\<lparr>apiKey = Some ''k'', cameraRef = True\<rparr>"]
    v en c
  show ?thesis by blast
qed

text \<open>
  C9: a cancelled gallery pick changes no component of the state, in the idle state as in
  any other, and raises no alert.
\<close>

theorem cancelled_pick_changes_nothing:
  "pickImage e (Resolved \<lparr>canceled = True, assets = a\<rparr>) s = s"
  by (simp add: pickImage_def)

end
